theory Spec2Isabelle
  imports Main "HOL-Library.Product_Lexorder"
begin

section \<open>The seats table\<close>

text \<open>
  One row of the table \<open>seats\<close> (schema in \<open>core/db.js\<close>): \<open>id\<close> is the primary key
  (the field is called \<open>seat_id\<close> here, as in the bookings query, because \<open>id\<close> is the
  identity function of HOL), \<open>row_number\<close> and \<open>seat_number\<close> are INTEGER NOT NULL,
  \<open>booked_by\<close> and \<open>booked_at\<close> are nullable. A timestamp is an opaque number.
\<close>

record seat =
  seat_id :: int
  row_number :: int
  seat_number :: int
  is_booked :: bool
  booked_by :: "int option"
  booked_at :: "nat option"

text \<open>The table is the list of its rows, in the order in which a scan returns them.\<close>

type_synonym ledger = "seat list"

text \<open>
  The constraints of the schema: PRIMARY KEY (id), UNIQUE (row_number, seat_number), and
  row and seat numbers that are positive values of the 32-bit INTEGER type, so that no
  SQL expression of the queries below can leave its type.
\<close>

definition wf_ledger :: "ledger \<Rightarrow> bool" where
  "wf_ledger db \<longleftrightarrow>
     distinct (map seat_id db) \<and>
     distinct (map (\<lambda>s. (row_number s, seat_number s)) db) \<and>
     list_all (\<lambda>s. 1 \<le> row_number s \<and> row_number s \<le> 2147483647 \<and>
                    1 \<le> seat_number s \<and> seat_number s \<le> 2147483647) db"

text \<open>
  What the handlers answer: the HTTP status and the part of the body that matters, under
  the names the specification gives to the outcomes.
\<close>

datatype response =
    Booked "(int \<times> int \<times> int) list"  \<comment> \<open>200, bookedSeats as (id, row, seat)\<close>
  | ValidationFailed                  \<comment> \<open>400, numSeats is not an integer in 1..7\<close>
  | InsufficientCapacity              \<comment> \<open>400, Not enough seats available\<close>
  | ConcurrentConflict                \<comment> \<open>409, Some seats were booked by another user\<close>
  | Released int                      \<comment> \<open>200, the seat booking is cancelled\<close>
  | NotFound                          \<comment> \<open>404, Seat not found or not booked\<close>
  | Forbidden                         \<comment> \<open>403, This seat is not booked by you\<close>
  | Reset                             \<comment> \<open>200, All bookings have been reset\<close>
  | ServerError                       \<comment> \<open>500, a statement failed and the catch block answered\<close>

section \<open>The queries of the booking handler\<close>

text \<open>\<open>FROM seats WHERE is_booked = FALSE\<close>\<close>

definition unbooked :: "ledger \<Rightarrow> seat list" where
  "unbooked db = filter (\<lambda>s. \<not> is_booked s) db"

text \<open>
  \<open>ROW_NUMBER() OVER (PARTITION BY row_number ORDER BY seat_number)\<close>: the place of a
  row, counted from 1, in its partition sorted by seat number.
\<close>

definition partition_of :: "seat list \<Rightarrow> seat \<Rightarrow> seat list" where
  "partition_of ss s = sort_key seat_number (filter (\<lambda>t. row_number t = row_number s) ss)"

definition ROW_NUMBER :: "seat list \<Rightarrow> seat \<Rightarrow> int" where
  "ROW_NUMBER ss s = 1 + int (length (takeWhile (\<lambda>t. t \<noteq> s) (partition_of ss s)))"

text \<open>
  The common table expression \<open>row_seats\<close>: every unbooked seat (its columns
  \<open>row_number\<close>, \<open>seat_number\<close>, \<open>id\<close> are read off the seat) with its \<open>grp\<close>.
\<close>

definition row_seats :: "ledger \<Rightarrow> (seat \<times> int) list" where
  "row_seats db =
     map (\<lambda>s. (s, seat_number s - ROW_NUMBER (unbooked db) s)) (unbooked db)"

text \<open>
  The common table expression \<open>consecutive_groups\<close>, rows
  \<open>(row_number, grp, seat_ids, group_size)\<close>: \<open>GROUP BY row_number, grp\<close>,
  \<open>array_agg(id ORDER BY seat_number)\<close>, \<open>HAVING COUNT( * ) >= $1\<close>,
  \<open>ORDER BY row_number\<close>.
\<close>

definition consecutive_groups :: "int \<Rightarrow> ledger \<Rightarrow> (int \<times> int \<times> int list \<times> nat) list" where
  "consecutive_groups n db =
     (let rs = row_seats db;
          ks = remdups (map (\<lambda>(s, g). (row_number s, g)) rs);
          agg = map (\<lambda>(r, g).
                  let ms = filter (\<lambda>(s, g'). row_number s = r \<and> g' = g) rs
                  in (r, g, map (seat_id \<circ> fst) (sort_key (seat_number \<circ> fst) ms), length ms)) ks
      in sort_key fst (filter (\<lambda>(r, g, ids, c). n \<le> int c) agg))"

text \<open>
  \<open>SELECT row_number, seat_ids FROM consecutive_groups LIMIT 1\<close>. The ordering by
  \<open>row_number\<close> leaves open which of several groups of the first row comes first; the
  number \<open>tie\<close> stands for that choice of the database, and every choice is some \<open>tie\<close>.
\<close>

definition consecutiveSeatsQuery :: "nat \<Rightarrow> int \<Rightarrow> ledger \<Rightarrow> (int \<times> int list) list" where
  "consecutiveSeatsQuery tie n db =
     (case consecutive_groups n db of
        [] \<Rightarrow> []
      | g # gs \<Rightarrow>
          (let firsts = takeWhile (\<lambda>h. fst h = fst g) (g # gs);
               (r, _, ids, _) = firsts ! (tie mod length firsts)
           in [(r, ids)]))"

text \<open>
  \<open>rowsWithMaxSeatsQuery\<close>, rows \<open>(row_number, seat_ids, available_seats)\<close>:
  \<open>GROUP BY row_number\<close>, \<open>ORDER BY available_seats DESC, row_number\<close>, \<open>LIMIT 1\<close>.
\<close>

definition rowsWithMaxSeatsQuery :: "ledger \<Rightarrow> (int \<times> int list \<times> nat) list" where
  "rowsWithMaxSeatsQuery db =
     (let fs = unbooked db;
          agg = map (\<lambda>r.
                  let ms = filter (\<lambda>s. row_number s = r) fs
                  in (r, map seat_id (sort_key seat_number ms), length ms))
                (remdups (map row_number fs))
      in take 1 (sort_key (\<lambda>(r, ids, c). (- int c, r)) agg))"

text \<open>
  \<open>nearbySeatsQuery\<close>: \<open>WHERE is_booked = FALSE AND id != ALL($1)
  ORDER BY ABS(row_number - $2), row_number, seat_number LIMIT $3\<close>.
\<close>

definition nearbySeatsQuery :: "int list \<Rightarrow> int \<Rightarrow> int \<Rightarrow> ledger \<Rightarrow> int list" where
  "nearbySeatsQuery sel r lim db =
     map seat_id (take (nat lim)
       (sort_key (\<lambda>s. (\<bar>row_number s - r\<bar>, row_number s, seat_number s))
          (filter (\<lambda>s. \<not> is_booked s \<and> seat_id s \<notin> set sel) db)))"

text \<open>\<open>anyAvailableSeatsQuery\<close>: \<open>ORDER BY row_number, seat_number LIMIT $1\<close>.\<close>

definition anyAvailableSeatsQuery :: "int \<Rightarrow> ledger \<Rightarrow> int list" where
  "anyAvailableSeatsQuery lim db =
     map seat_id (take (nat lim)
       (sort_key (\<lambda>s. (row_number s, seat_number s)) (unbooked db)))"

text \<open>\<open>SELECT COUNT( * ) FROM seats WHERE id = ANY($1) AND is_booked = TRUE\<close>\<close>

definition verifyAvailabilityQuery :: "int list \<Rightarrow> ledger \<Rightarrow> nat" where
  "verifyAvailabilityQuery sel db =
     length (filter (\<lambda>s. seat_id s \<in> set sel \<and> is_booked s) db)"

text \<open>
  \<open>UPDATE seats SET is_booked = TRUE, booked_by = $1, booked_at = NOW()
  WHERE id = ANY($2) RETURNING id, row_number, seat_number\<close>: the new table, and the
  returned rows.
\<close>

definition updateQuery :: "int \<Rightarrow> nat \<Rightarrow> int list \<Rightarrow> ledger \<Rightarrow> ledger" where
  "updateQuery userId now sel db =
     map (\<lambda>s. if seat_id s \<in> set sel
               then s\<lparr>is_booked := True, booked_by := Some userId, booked_at := Some now\<rparr>
               else s) db"

definition updateReturning :: "int list \<Rightarrow> ledger \<Rightarrow> (int \<times> int \<times> int) list" where
  "updateReturning sel db =
     map (\<lambda>s. (seat_id s, row_number s, seat_number s))
       (filter (\<lambda>s. seat_id s \<in> set sel) db)"

section \<open>The booking handler\<close>

text \<open>\<open>xs.slice(0, k)\<close> of JavaScript, for an integer \<open>k\<close>.\<close>

definition slice0 :: "'a list \<Rightarrow> int \<Rightarrow> 'a list" where
  "slice0 xs k = (if 0 \<le> k then take (nat k) xs else take (length xs - nat (- k)) xs)"

text \<open>The third priority: any available seats, or the answer 400.\<close>

definition anyAvailableSeats :: "int \<Rightarrow> ledger \<Rightarrow> response + int list" where
  "anyAvailableSeats numSeats db =
     (let rows = anyAvailableSeatsQuery numSeats db
      in if int (length rows) < numSeats then Inl InsufficientCapacity else Inr rows)"

text \<open>
  The selection of \<open>selectedSeatIds\<close>: consecutive seats of one row first, then the row
  with the most available seats completed from nearby rows, then any available seats.
\<close>

definition select_seats :: "nat \<Rightarrow> int \<Rightarrow> ledger \<Rightarrow> response + int list" where
  "select_seats tie numSeats db =
     (case consecutiveSeatsQuery tie numSeats db of
        (rowNumber, seat_ids) # _ \<Rightarrow> Inr (slice0 seat_ids numSeats)
      | [] \<Rightarrow>
          (let rows = rowsWithMaxSeatsQuery db in
           if rows \<noteq> [] \<and> 0 < snd (snd (hd rows)) then
             (let (rowNumber, seat_ids, available_seats) = hd rows;
                  availableInBestRow = min (int available_seats) numSeats;
                  selectedSeatIds = slice0 seat_ids availableInBestRow
              in if availableInBestRow < numSeats then
                   (let remainingSeats = numSeats - availableInBestRow;
                        nearby = nearbySeatsQuery selectedSeatIds rowNumber remainingSeats db
                    in if int (length nearby) = remainingSeats
                       then Inr (selectedSeatIds @ nearby)
                       else Inl InsufficientCapacity)
                 else Inr selectedSeatIds)
           else anyAvailableSeats numSeats db))"

text \<open>
  The handler of \<open>POST /api/book-seats\<close>, from the validation of \<open>numSeats\<close> to the
  answer. Every statement is sent to the pool on its own (\<open>pool.query\<close>; no client is
  checked out), so \<open>BEGIN\<close>, the \<open>FOR UPDATE\<close> query and \<open>COMMIT\<close> bind no two statements
  together: no transaction and no lock spans the re-check and the update, and other
  requests may commit between them. The handler therefore reads and writes three tables:
  the selection reads \<open>snap\<close> (the snapshot of the specification's \<open>select\<close>), the re-check
  reads \<open>chk\<close>, and the update, which has no condition on \<open>is_booked\<close>, is applied to
  \<open>cur\<close>. The \<open>FOR UPDATE\<close> query changes no row. The result is the answer and the table
  the request leaves behind. \<open>userId\<close> is the \<open>id\<close> of a row of \<open>users\<close>, read from the
  verified token, and \<open>numSeats\<close> is validated, so no statement of this handler fails on
  a table that satisfies the schema: the answer 500 has no branch here.
\<close>

definition book_seats ::
    "nat \<Rightarrow> int \<Rightarrow> int \<Rightarrow> nat \<Rightarrow> ledger \<Rightarrow> ledger \<Rightarrow> ledger \<Rightarrow> response \<times> ledger" where
  "book_seats tie numSeats userId now snap chk cur =
     (if \<not> (1 \<le> numSeats \<and> numSeats \<le> 7) then (ValidationFailed, cur)
      else case select_seats tie numSeats snap of
             Inl e \<Rightarrow> (e, cur)
           | Inr selectedSeatIds \<Rightarrow>
               if 0 < verifyAvailabilityQuery selectedSeatIds chk
               then (ConcurrentConflict, cur)
               else (Booked (updateReturning selectedSeatIds cur),
                     updateQuery userId now selectedSeatIds cur))"

text \<open>A booking that no other request interleaves with: the three tables are one.\<close>

definition bookSeats :: "nat \<Rightarrow> int \<Rightarrow> int \<Rightarrow> nat \<Rightarrow> ledger \<Rightarrow> response \<times> ledger" where
  "bookSeats tie numSeats userId now db = book_seats tie numSeats userId now db db db"

section \<open>Cancellation and reset\<close>

text \<open>The values of the 32-bit type INTEGER of the columns \<open>id\<close> and \<open>booked_by\<close>.\<close>

definition int4 :: "int \<Rightarrow> bool" where
  "int4 i \<longleftrightarrow> - 2147483648 \<le> i \<and> i \<le> 2147483647"

text \<open>
  The handler of \<open>POST /api/seats/:seatId/cancel\<close>. The validator \<open>isInt()\<close> bounds
  nothing, so \<open>seatId\<close> is any integer; one that is no INTEGER makes \<open>seatQuery\<close> fail
  (\<open>WHERE id = $1\<close> on an INTEGER column), and the catch block answers 500. Otherwise
  \<open>seatQuery\<close> selects the booked rows with that id, the first of them is compared with
  the caller, and the update frees every row with that id. As in the booking handler the
  two statements go to the pool one by one: \<open>seatQuery\<close> reads the table \<open>chk\<close>, and the
  update is applied to the table \<open>cur\<close>.
\<close>

definition seatQuery :: "int \<Rightarrow> ledger \<Rightarrow> seat list" where
  "seatQuery seatId db = filter (\<lambda>s. seat_id s = seatId \<and> is_booked s) db"

definition cancel :: "int \<Rightarrow> int \<Rightarrow> ledger \<Rightarrow> ledger \<Rightarrow> response \<times> ledger" where
  "cancel seatId userId chk cur =
     (if \<not> int4 seatId then (ServerError, cur)
      else case seatQuery seatId chk of
        [] \<Rightarrow> (NotFound, cur)
      | s # _ \<Rightarrow>
          if booked_by s \<noteq> Some userId then (Forbidden, cur)
          else (Released seatId,
                map (\<lambda>t. if seat_id t = seatId
                          then t\<lparr>is_booked := False, booked_by := None, booked_at := None\<rparr>
                          else t) cur))"

text \<open>The handler of \<open>POST /api/admin/reset-all\<close>.\<close>

definition reset_all :: "ledger \<Rightarrow> response \<times> ledger" where
  "reset_all db =
     (Reset, map (\<lambda>s. s\<lparr>is_booked := False, booked_by := None, booked_at := None\<rparr>) db)"

section \<open>The invariant of a seat, and ledgers to run the handlers on\<close>

text \<open>
  The occupancy columns of a seat agree: \<open>booked_by\<close> and \<open>booked_at\<close> are both set
  when \<open>is_booked\<close> holds and both NULL when it does not.
\<close>

definition seat_inv :: "seat \<Rightarrow> bool" where
  "seat_inv s \<longleftrightarrow>
     (if is_booked s then booked_by s \<noteq> None \<and> booked_at s \<noteq> None
      else booked_by s = None \<and> booked_at s = None)"

definition ledger_inv :: "ledger \<Rightarrow> bool" where
  "ledger_inv db \<longleftrightarrow> list_all seat_inv db"

definition vacant :: "int \<Rightarrow> int \<Rightarrow> int \<Rightarrow> seat" where
  "vacant i r p =
     \<lparr>seat_id = i, row_number = r, seat_number = p,
      is_booked = False, booked_by = None, booked_at = None\<rparr>"

definition taken :: "int \<Rightarrow> int \<Rightarrow> int \<Rightarrow> int \<Rightarrow> nat \<Rightarrow> seat" where
  "taken i r p u t =
     \<lparr>seat_id = i, row_number = r, seat_number = p,
      is_booked = True, booked_by = Some u, booked_at = Some t\<rparr>"

text \<open>Two rows of three seats, numbered row by row as the initialisation does.\<close>

definition layout_2x3 :: ledger where
  "layout_2x3 =
     [vacant 1 1 1, vacant 2 1 2, vacant 3 1 3, vacant 4 2 1, vacant 5 2 2, vacant 6 2 3]"

text \<open>The same layout with seat 2 booked by requester 8.\<close>

definition raced :: ledger where
  "raced =
     [vacant 1 1 1, taken 2 1 2 8 40, vacant 3 1 3, vacant 4 2 1, vacant 5 2 2, vacant 6 2 3]"

text \<open>A seat booked by requester 5 and a free seat.\<close>

definition two_seats :: ledger where
  "two_seats = [taken 1 1 1 5 30, vacant 2 1 2]"

text \<open>
  Row 1 with a booked seat between a free run of two and a free run of three, and a free
  row 2 of three seats.
\<close>

definition gapped :: ledger where
  "gapped =
     [vacant 1 1 1, vacant 2 1 2, taken 3 1 3 8 40, vacant 4 1 4, vacant 5 1 5, vacant 6 1 6,
      vacant 7 2 1, vacant 8 2 2, vacant 9 2 3]"

text \<open>Row 2 with two free seats that are not neighbours, between rows 1 and 3 with one each.\<close>

definition spill :: ledger where
  "spill =
     [vacant 1 1 1, taken 2 1 2 8 40, vacant 3 2 1, taken 4 2 2 8 41, vacant 5 2 3,
      vacant 6 3 1, taken 7 3 2 8 42]"


section \<open>Notions of the specification\<close>

text \<open>
  These definitions follow the words of the specification, not the queries: the queries
  are compared with them below.

  Position \<open>p\<close> of row \<open>r\<close> holds an unoccupied seat.
\<close>

definition free_at :: "ledger \<Rightarrow> int \<Rightarrow> int \<Rightarrow> bool" where
  "free_at db r p \<longleftrightarrow> (\<exists>s\<in>set db. row_number s = r \<and> seat_number s = p \<and> \<not> is_booked s)"

text \<open>
  The positions \<open>a, \<dots>, b\<close> of row \<open>r\<close> are a maximal run of unoccupied seats with
  consecutive positions: all of them are free, and the positions next to both ends are not.
\<close>

definition maximal_run :: "ledger \<Rightarrow> int \<Rightarrow> int \<Rightarrow> int \<Rightarrow> bool" where
  "maximal_run db r a b \<longleftrightarrow>
     a \<le> b \<and> (\<forall>p\<in>{a..b}. free_at db r p) \<and> \<not> free_at db r (a - 1) \<and> \<not> free_at db r (b + 1)"

text \<open>The unoccupied seats of row \<open>r\<close>, those of the other rows, and their number.\<close>

definition in_row :: "ledger \<Rightarrow> int \<Rightarrow> seat list" where
  "in_row db r = filter (\<lambda>s. row_number s = r) (unbooked db)"

definition other_rows :: "ledger \<Rightarrow> int \<Rightarrow> seat list" where
  "other_rows db r = filter (\<lambda>s. row_number s \<noteq> r) (unbooked db)"

definition count_free :: "ledger \<Rightarrow> int \<Rightarrow> nat" where
  "count_free db r = length (in_row db r)"

text \<open>
  Row \<open>r\<close> is the row with the most unoccupied seats, the lowest-numbered one among the
  rows with that many.
\<close>

definition best_row :: "ledger \<Rightarrow> int \<Rightarrow> bool" where
  "best_row db r \<longleftrightarrow>
     0 < count_free db r \<and>
     (\<forall>s\<in>set (unbooked db).
        count_free db (row_number s) \<le> count_free db r \<and>
        (count_free db (row_number s) = count_free db r \<longrightarrow> r \<le> row_number s))"

text \<open>
  Two tables hold the same seats: only the occupancy columns may differ (seats are never
  inserted, deleted or moved).
\<close>

definition same_seats :: "ledger \<Rightarrow> ledger \<Rightarrow> bool" where
  "same_seats snap cur \<longleftrightarrow>
     map (\<lambda>s. (seat_id s, row_number s, seat_number s)) snap =
     map (\<lambda>s. (seat_id s, row_number s, seat_number s)) cur"

section \<open>Auxiliary notions of the proofs\<close>

text \<open>
  For a set \<open>A\<close> of positions, \<open>gap A p\<close> is what \<open>seat_number - ROW_NUMBER()\<close> computes
  for the seat at position \<open>p\<close> when \<open>A\<close> is the set of free positions of its row.
\<close>

definition gap :: "int set \<Rightarrow> int \<Rightarrow> int" where
  "gap A p = p - 1 - int (card {q \<in> A. q < p})"

definition free_pos :: "ledger \<Rightarrow> int \<Rightarrow> int set" where
  "free_pos db r = {p. free_at db r p}"

text \<open>The rows of one group of \<open>consecutive_groups\<close>, unsorted and sorted by seat number.\<close>

definition members :: "ledger \<Rightarrow> int \<Rightarrow> int \<Rightarrow> seat list" where
  "members db r g =
     filter (\<lambda>s. row_number s = r \<and> gap (free_pos db r) (seat_number s) = g) (unbooked db)"

definition run_seats :: "ledger \<Rightarrow> int \<Rightarrow> int \<Rightarrow> seat list" where
  "run_seats db r g = sort_key seat_number (members db r g)"

text \<open>A maximal run of at least \<open>n\<close> seats.\<close>

definition qualifying_run :: "int \<Rightarrow> ledger \<Rightarrow> int \<Rightarrow> int \<Rightarrow> int \<Rightarrow> bool" where
  "qualifying_run n db r a b \<longleftrightarrow> maximal_run db r a b \<and> n \<le> b - a + 1"

text \<open>
  The row that \<open>rowsWithMaxSeatsQuery\<close> computes for row \<open>r\<close>, and the sort key of
  \<open>nearbySeatsQuery\<close>.
\<close>

definition row_group :: "ledger \<Rightarrow> int \<Rightarrow> int \<times> int list \<times> nat" where
  "row_group db r = (r, map seat_id (sort_key seat_number (in_row db r)), count_free db r)"

definition nearby_key :: "int \<Rightarrow> seat \<Rightarrow> int \<times> int \<times> int" where
  "nearby_key r s = (\<bar>row_number s - r\<bar>, row_number s, seat_number s)"

section \<open>Evaluation\<close>

lemmas eval_defs = bookSeats_def book_seats_def select_seats_def consecutiveSeatsQuery_def
  consecutive_groups_def row_seats_def ROW_NUMBER_def partition_of_def unbooked_def
  rowsWithMaxSeatsQuery_def nearbySeatsQuery_def anyAvailableSeatsQuery_def
  anyAvailableSeats_def verifyAvailabilityQuery_def updateQuery_def updateReturning_def
  slice0_def vacant_def taken_def

lemma maximal_run_upto:
  "maximal_run db r a b \<longleftrightarrow>
     a \<le> b \<and> list_all (free_at db r) [a..b] \<and> \<not> free_at db r (a - 1) \<and> \<not> free_at db r (b + 1)"
  by (simp add: maximal_run_def list_all_iff)

lemmas ledger_defs = wf_ledger_def maximal_run_upto free_at_def upto.simps

section \<open>The re-check and the update of a booking\<close>

lemma verify_pos_iff:
  "0 < verifyAvailabilityQuery sel db \<longleftrightarrow> (\<exists>s\<in>set db. seat_id s \<in> set sel \<and> is_booked s)"
  by (auto simp: verifyAvailabilityQuery_def filter_empty_conv)

text \<open>
  When nothing commits between the re-check and the update (\<open>chk\<close> and \<open>cur\<close> are one
  table), a booked candidate gives the conflict and leaves the table as it was, and
  otherwise exactly the candidates are marked booked by the requester.
\<close>

lemma recheck_when_uninterrupted:
  assumes "1 \<le> numSeats" and "numSeats \<le> 7"
    and "select_seats tie numSeats snap = Inr sel"
  shows "if \<exists>s\<in>set cur. seat_id s \<in> set sel \<and> is_booked s
         then book_seats tie numSeats userId now snap cur cur = (ConcurrentConflict, cur)
         else book_seats tie numSeats userId now snap cur cur =
              (Booked (map (\<lambda>s. (seat_id s, row_number s, seat_number s))
                         (filter (\<lambda>s. seat_id s \<in> set sel) cur)),
               map (\<lambda>s. if seat_id s \<in> set sel
                         then s\<lparr>is_booked := True, booked_by := Some userId, booked_at := Some now\<rparr>
                         else s) cur)"
proof (cases "0 < verifyAvailabilityQuery sel cur")
  case True
  with assms show ?thesis
    by (simp add: book_seats_def verify_pos_iff [symmetric])
next
  case False
  with assms show ?thesis
    by (simp add: book_seats_def verify_pos_iff [symmetric] updateQuery_def updateReturning_def)
qed

text \<open>
  Claim C1 says that the \<open>is_booked\<close> flags of the candidates are re-read under the
  lock, and that the candidates are marked occupied only if all of them are still free.
  The handler does not keep this. On the free layout, a request for 3 seats by requester 7
  selects the seats 1, 2, 3 and finds them free at its re-check. A request for 2 seats by
  requester 8 then runs from its first to its last statement and books the seats 1 and 2;
  on the table it leaves, the re-check would count two booked candidates. The update of
  the first request, which no lock protects and which has no condition on \<open>is_booked\<close>,
  is applied to that table: it marks the seats 1, 2, 3 as booked by requester 7 and the
  answer is a success. The seats 1 and 2 are given to both requesters, and the booking of
  requester 8 is overwritten.
\<close>

theorem update_after_stale_recheck:
  "select_seats 0 3 layout_2x3 = Inr [1, 2, 3] \<and>
   verifyAvailabilityQuery [1, 2, 3] layout_2x3 = 0 \<and>
   bookSeats 0 2 8 40 layout_2x3 =
     (Booked [(1, 1, 1), (2, 1, 2)],
      [taken 1 1 1 8 40, taken 2 1 2 8 40, vacant 3 1 3,
       vacant 4 2 1, vacant 5 2 2, vacant 6 2 3]) \<and>
   verifyAvailabilityQuery [1, 2, 3]
      [taken 1 1 1 8 40, taken 2 1 2 8 40, vacant 3 1 3,
       vacant 4 2 1, vacant 5 2 2, vacant 6 2 3] = 2 \<and>
   book_seats 0 3 7 50 layout_2x3 layout_2x3
      [taken 1 1 1 8 40, taken 2 1 2 8 40, vacant 3 1 3,
       vacant 4 2 1, vacant 5 2 2, vacant 6 2 3] =
     (Booked [(1, 1, 1), (2, 1, 2), (3, 1, 3)],
      [taken 1 1 1 7 50, taken 2 1 2 7 50, taken 3 1 3 7 50,
       vacant 4 2 1, vacant 5 2 2, vacant 6 2 3])"
  by (simp add: eval_defs layout_2x3_def Let_def)

text \<open>
  Claim C3. On two free rows of three seats, booking 3 seats for \<open>u1\<close>, then 2 for \<open>u2\<close>,
  then 2 for \<open>u3\<close>: the first booking gets the seats (1,1), (1,2), (1,3), the second the
  seats (2,1), (2,2), and the third is refused for lack of seats, with seat (2,3) still
  free in the table it leaves.
\<close>

theorem scenario_2x3:
  "bookSeats t1 3 u1 n1 layout_2x3 =
     (Booked [(1, 1, 1), (2, 1, 2), (3, 1, 3)],
      [taken 1 1 1 u1 n1, taken 2 1 2 u1 n1, taken 3 1 3 u1 n1,
       vacant 4 2 1, vacant 5 2 2, vacant 6 2 3]) \<and>
   bookSeats t2 2 u2 n2
      [taken 1 1 1 u1 n1, taken 2 1 2 u1 n1, taken 3 1 3 u1 n1,
       vacant 4 2 1, vacant 5 2 2, vacant 6 2 3] =
     (Booked [(4, 2, 1), (5, 2, 2)],
      [taken 1 1 1 u1 n1, taken 2 1 2 u1 n1, taken 3 1 3 u1 n1,
       taken 4 2 1 u2 n2, taken 5 2 2 u2 n2, vacant 6 2 3]) \<and>
   bookSeats t3 2 u3 n3
      [taken 1 1 1 u1 n1, taken 2 1 2 u1 n1, taken 3 1 3 u1 n1,
       taken 4 2 1 u2 n2, taken 5 2 2 u2 n2, vacant 6 2 3] =
     (InsufficientCapacity,
      [taken 1 1 1 u1 n1, taken 2 1 2 u1 n1, taken 3 1 3 u1 n1,
       taken 4 2 1 u2 n2, taken 5 2 2 u2 n2, vacant 6 2 3])"
proof (intro conjI)
  show "bookSeats t1 3 u1 n1 layout_2x3 =
     (Booked [(1, 1, 1), (2, 1, 2), (3, 1, 3)],
      [taken 1 1 1 u1 n1, taken 2 1 2 u1 n1, taken 3 1 3 u1 n1,
       vacant 4 2 1, vacant 5 2 2, vacant 6 2 3])"
    by (simp add: eval_defs layout_2x3_def Let_def)
  show "bookSeats t2 2 u2 n2
      [taken 1 1 1 u1 n1, taken 2 1 2 u1 n1, taken 3 1 3 u1 n1,
       vacant 4 2 1, vacant 5 2 2, vacant 6 2 3] =
     (Booked [(4, 2, 1), (5, 2, 2)],
      [taken 1 1 1 u1 n1, taken 2 1 2 u1 n1, taken 3 1 3 u1 n1,
       taken 4 2 1 u2 n2, taken 5 2 2 u2 n2, vacant 6 2 3])"
    by (simp add: eval_defs Let_def)
  show "bookSeats t3 2 u3 n3
      [taken 1 1 1 u1 n1, taken 2 1 2 u1 n1, taken 3 1 3 u1 n1,
       taken 4 2 1 u2 n2, taken 5 2 2 u2 n2, vacant 6 2 3] =
     (InsufficientCapacity,
      [taken 1 1 1 u1 n1, taken 2 1 2 u1 n1, taken 3 1 3 u1 n1,
       taken 4 2 1 u2 n2, taken 5 2 2 u2 n2, vacant 6 2 3])"
    by (simp add: eval_defs Let_def)
qed

section \<open>The invariant of the occupancy columns\<close>

lemma seat_inv_update:
  "seat_inv (s\<lparr>is_booked := True, booked_by := Some u, booked_at := Some t\<rparr>)"
  "seat_inv (s\<lparr>is_booked := False, booked_by := None, booked_at := None\<rparr>)"
  by (simp_all add: seat_inv_def)

lemma ledger_inv_updateQuery: "ledger_inv db \<Longrightarrow> ledger_inv (updateQuery u t sel db)"
  by (induction db) (simp_all add: ledger_inv_def updateQuery_def seat_inv_update)

lemma ledger_inv_book_seats:
  "ledger_inv cur \<Longrightarrow> ledger_inv (snd (book_seats tie n u t snap chk cur))"
  by (simp add: book_seats_def ledger_inv_updateQuery split: sum.splits)

lemma ledger_inv_cancel: "ledger_inv db \<Longrightarrow> ledger_inv (snd (cancel sid u chk db))"
proof -
  assume inv: "ledger_inv db"
  have "ledger_inv (map (\<lambda>t. if seat_id t = sid
            then t\<lparr>is_booked := False, booked_by := None, booked_at := None\<rparr> else t) db)"
    using inv by (induction db) (simp_all add: ledger_inv_def seat_inv_update)
  with inv show ?thesis
    by (simp add: cancel_def split: list.splits)
qed

lemma ledger_inv_reset_all: "ledger_inv (snd (reset_all db))"
  by (induction db) (simp_all add: reset_all_def ledger_inv_def seat_inv_update)

text \<open>
  Claim C9. Booking and cancelling (whatever the tables the earlier statements of the
  request read, and whatever the answer) and resetting all keep the invariant of the occupancy columns: a table that
  satisfies it before the operation satisfies it afterwards, whether the operation
  succeeded or was refused.
\<close>

theorem operations_keep_invariant:
  assumes "ledger_inv db"
  shows "ledger_inv (snd (book_seats tie numSeats userId now snap chk db)) \<and>
         ledger_inv (snd (bookSeats tie numSeats userId now db)) \<and>
         ledger_inv (snd (cancel seatId requesterId chk' db)) \<and>
         ledger_inv (snd (reset_all db))"
  using assms
  by (simp add: ledger_inv_book_seats ledger_inv_cancel ledger_inv_reset_all bookSeats_def)

theorem operations_keep_invariant_witness:
  "ledger_inv two_seats \<and>
   ledger_inv (snd (book_seats 0 1 6 31 two_seats two_seats two_seats)) \<and>
   ledger_inv (snd (bookSeats 0 1 6 31 two_seats)) \<and>
   ledger_inv (snd (cancel 1 5 two_seats two_seats)) \<and>
   ledger_inv (snd (reset_all two_seats))"
proof -
  have i: "ledger_inv two_seats"
    by (simp add: two_seats_def vacant_def taken_def ledger_inv_def seat_inv_def)
  show ?thesis
    using i operations_keep_invariant [OF i, where tie = 0 and numSeats = 1 and userId = 6
        and now = 31 and snap = two_seats and chk = two_seats and seatId = 1
        and requesterId = 5 and chk' = two_seats]
    by simp
qed

section \<open>Cancellation\<close>


lemma seat_id_eq_iff:
  assumes "distinct (map seat_id db)" and "s \<in> set db" and "t \<in> set db"
  shows "seat_id t = seat_id s \<longleftrightarrow> t = s"
  using assms by (auto simp: distinct_map inj_on_def)

text \<open>
  An identifier outside the INTEGER type is no seat identifier: the query fails, the
  answer is 500 and nothing is written.
\<close>

lemma cancel_out_of_range: "\<not> int4 seatId \<Longrightarrow> cancel seatId b chk cur = (ServerError, cur)"
  by (simp add: cancel_def)



section \<open>Groups of the first query are maximal runs\<close>

subsection \<open>Counting the gaps below a position\<close>

lemma gap_diff:
  assumes "finite A" and "p \<le> p'"
  shows "gap A p' - gap A p = int (card ({p..<p'} - A))"
proof -
  have 1: "{q \<in> A. q < p'} = {q \<in> A. q < p} \<union> (A \<inter> {p..<p'})"
    using assms(2) by auto
  have "card ({q \<in> A. q < p} \<union> (A \<inter> {p..<p'})) = card {q \<in> A. q < p} + card (A \<inter> {p..<p'})"
    using assms(1) by (intro card_Un_disjoint) auto
  with 1 have 3: "card {q \<in> A. q < p'} = card {q \<in> A. q < p} + card (A \<inter> {p..<p'})"
    by simp
  have "{p..<p'} = (A \<inter> {p..<p'}) \<union> ({p..<p'} - A)" by auto
  then have "card {p..<p'} = card ((A \<inter> {p..<p'}) \<union> ({p..<p'} - A))" by simp
  also have "\<dots> = card (A \<inter> {p..<p'}) + card ({p..<p'} - A)"
    by (intro card_Un_disjoint) auto
  finally have 4: "card {p..<p'} = card (A \<inter> {p..<p'}) + card ({p..<p'} - A)" .
  have 5: "int (card {p..<p'}) = p' - p" using assms(2) by simp
  show ?thesis unfolding gap_def using 3 4 5 by linarith
qed

lemma gap_mono: "finite A \<Longrightarrow> p \<le> p' \<Longrightarrow> gap A p \<le> gap A p'"
  using gap_diff [of A p p'] by linarith

lemma gap_eq_iff:
  assumes "finite A" and "p \<le> p'"
  shows "gap A p = gap A p' \<longleftrightarrow> {p..<p'} \<subseteq> A"
proof -
  have "gap A p = gap A p' \<longleftrightarrow> card ({p..<p'} - A) = 0"
    using gap_diff [OF assms] by linarith
  also have "\<dots> \<longleftrightarrow> {p..<p'} - A = {}" by simp
  also have "\<dots> \<longleftrightarrow> {p..<p'} \<subseteq> A" by auto
  finally show ?thesis .
qed

lemma group_is_run:
  assumes fin: "finite A" and p0: "p0 \<in> A"
  defines "M \<equiv> {p \<in> A. gap A p = gap A p0}"
  shows "\<exists>a b. M = {a..b} \<and> a \<le> p0 \<and> p0 \<le> b \<and> a - 1 \<notin> A \<and> b + 1 \<notin> A"
proof -
  have finM: "finite M" and neM: "M \<noteq> {}" and p0M: "p0 \<in> M"
    using fin p0 by (auto simp: M_def)
  define a where "a = Min M"
  define b where "b = Max M"
  have aM: "a \<in> M" and bM: "b \<in> M"
    using finM neM by (simp_all add: a_def b_def)
  have ab: "a \<le> p0" "p0 \<le> b"
    using finM p0M by (simp_all add: a_def b_def)
  have ga: "gap A a = gap A p0" and gb: "gap A b = gap A p0" and aA: "a \<in> A" and bA: "b \<in> A"
    using aM bM by (simp_all add: M_def)
  have sub: "{a..<b} \<subseteq> A"
    using gap_eq_iff [OF fin, of a b] ab ga gb by simp
  have "M = {a..b}"
  proof (intro set_eqI iffI)
    fix q assume "q \<in> M"
    then show "q \<in> {a..b}" using finM by (simp add: a_def b_def)
  next
    fix q assume q: "q \<in> {a..b}"
    then have qA: "q \<in> A" using sub bA by (cases "q = b") auto
    have "gap A a \<le> gap A q" "gap A q \<le> gap A b"
      using q gap_mono [OF fin] by simp_all
    with ga gb qA show "q \<in> M" by (simp add: M_def)
  qed
  moreover have "a - 1 \<notin> A"
  proof
    assume in_A: "a - 1 \<in> A"
    have "{a - 1..<a} = {a - 1}" by auto
    then have "{a - 1..<a} \<subseteq> A" using in_A by simp
    then have "gap A (a - 1) = gap A a" using gap_eq_iff [OF fin, of "a - 1" a] by simp
    with in_A ga have "a - 1 \<in> M" by (simp add: M_def)
    then have "a \<le> a - 1" unfolding a_def using finM by (rule Min_le [rotated])
    then show False by simp
  qed
  moreover have "b + 1 \<notin> A"
  proof
    assume in_A: "b + 1 \<in> A"
    have "{b..<b + 1} = {b}" by auto
    then have "{b..<b + 1} \<subseteq> A" using bA by simp
    then have "gap A b = gap A (b + 1)" using gap_eq_iff [OF fin, of b "b + 1"] by simp
    with in_A gb have "b + 1 \<in> M" by (simp add: M_def)
    then have "b + 1 \<le> b" unfolding b_def using finM by (rule Max_ge [rotated])
    then show False by simp
  qed
  ultimately show ?thesis using ab by blast
qed

lemma run_is_group:
  assumes fin: "finite A" and ab: "a \<le> b" and sub: "{a..b} \<subseteq> A"
    and lo: "a - 1 \<notin> A" and hi: "b + 1 \<notin> A"
  shows "{p \<in> A. gap A p = gap A a} = {a..b}"
proof (intro set_eqI iffI)
  fix q assume "q \<in> {p \<in> A. gap A p = gap A a}"
  then have qA: "q \<in> A" and g: "gap A q = gap A a" by simp_all
  have "a \<le> q"
  proof (rule ccontr)
    assume "\<not> a \<le> q"
    then have "q \<le> a" "q \<le> a - 1" "a - 1 < a" by simp_all
    with g have "{q..<a} \<subseteq> A" using gap_eq_iff [OF fin, of q a] by simp
    moreover have "a - 1 \<in> {q..<a}" using \<open>q \<le> a - 1\<close> by simp
    ultimately show False using lo by blast
  qed
  moreover have "q \<le> b"
  proof (rule ccontr)
    assume "\<not> q \<le> b"
    then have bq: "b + 1 \<le> q" by simp
    with ab have "a \<le> q" by simp
    with g have s: "{a..<q} \<subseteq> A" using gap_eq_iff [OF fin, of a q] by simp
    show False
    proof (cases "q = b + 1")
      case True
      with qA hi show False by simp
    next
      case False
      with bq ab have "b + 1 \<in> {a..<q}" by simp
      with s hi show False by blast
    qed
  qed
  ultimately show "q \<in> {a..b}" by simp
next
  fix q assume q: "q \<in> {a..b}"
  then have "{a..<q} \<subseteq> A" using sub by auto
  then have "gap A a = gap A q" using gap_eq_iff [OF fin, of a q] q by simp
  with q sub show "q \<in> {p \<in> A. gap A p = gap A a}" by auto
qed

subsection \<open>From the window function to the gap count\<close>

lemma free_pos_image:
  "free_pos db r = seat_number ` {s \<in> set (unbooked db). row_number s = r}"
  by (auto simp: free_pos_def free_at_def unbooked_def)

lemma finite_free_pos: "finite (free_pos db r)"
  by (simp add: free_pos_image)

lemma length_takeWhile_neq:
  fixes f :: "'a \<Rightarrow> int"
  assumes "sorted_wrt (\<lambda>x y. f x < f y) xs" and "s \<in> set xs"
  shows "length (takeWhile (\<lambda>t. t \<noteq> s) xs) = card {q \<in> f ` set xs. q < f s}"
  using assms
proof (induction xs)
  case Nil
  then show ?case by simp
next
  case (Cons x xs)
  from Cons.prems have above: "\<forall>y\<in>set xs. f x < f y" and sorted: "sorted_wrt (\<lambda>x y. f x < f y) xs"
    by simp_all
  show ?case
  proof (cases "x = s")
    case True
    with above have "{q \<in> f ` set (x # xs). q < f s} = {}" by force
    with True show ?thesis by simp
  next
    case False
    with Cons.prems have s: "s \<in> set xs" by simp
    with above have lt: "f x < f s" by simp
    have eq: "{q \<in> f ` set (x # xs). q < f s} = insert (f x) {q \<in> f ` set xs. q < f s}"
      using lt by auto
    have notin: "f x \<notin> {q \<in> f ` set xs. q < f s}" using above by force
    have "card {q \<in> f ` set (x # xs). q < f s} = Suc (card {q \<in> f ` set xs. q < f s})"
      unfolding eq using notin by (intro card_insert_disjoint) simp_all
    with False Cons.IH [OF sorted s] show ?thesis by simp
  qed
qed

lemma distinct_map_Pair: "distinct (map (\<lambda>s. (r, f s)) xs) \<Longrightarrow> distinct (map f xs)"
  by (induction xs) auto

lemma distinct_seat_number_in_row:
  assumes "wf_ledger db"
  shows "distinct (map seat_number (filter (\<lambda>t. row_number t = r) (unbooked db)))"
proof -
  let ?xs = "filter (\<lambda>t. row_number t = r) (unbooked db)"
  have "distinct (map (\<lambda>s. (row_number s, seat_number s)) db)"
    using assms by (simp add: wf_ledger_def)
  then have "distinct (map (\<lambda>s. (row_number s, seat_number s)) ?xs)"
    unfolding unbooked_def by (intro distinct_map_filter)
  moreover have "map (\<lambda>s. (row_number s, seat_number s)) ?xs = map (\<lambda>s. (r, seat_number s)) ?xs"
    by (intro map_cong) auto
  ultimately have "distinct (map (\<lambda>s. (r, seat_number s)) ?xs)" by simp
  then show ?thesis by (rule distinct_map_Pair)
qed

lemma partition_of_strict:
  assumes "wf_ledger db"
  shows "sorted_wrt (\<lambda>x y. seat_number x < seat_number y) (partition_of (unbooked db) s)"
proof -
  let ?P = "partition_of (unbooked db) s"
  have "sorted (map seat_number ?P)" by (simp add: partition_of_def)
  moreover have "distinct (map seat_number ?P)"
    using distinct_seat_number_in_row [OF assms, of "row_number s"]
    by (simp add: partition_of_def distinct_map)
  ultimately have "sorted_wrt (<) (map seat_number ?P)" by (simp add: strict_sorted_iff)
  then show ?thesis by (simp add: sorted_wrt_map)
qed

lemma grp_is_gap:
  assumes wf: "wf_ledger db" and s: "s \<in> set (unbooked db)"
  shows "seat_number s - ROW_NUMBER (unbooked db) s =
         gap (free_pos db (row_number s)) (seat_number s)"
proof -
  let ?P = "partition_of (unbooked db) s"
  have sP: "s \<in> set ?P" using s by (simp add: partition_of_def)
  have img: "seat_number ` set ?P = free_pos db (row_number s)"
    by (auto simp: partition_of_def free_pos_image)
  have "length (takeWhile (\<lambda>t. t \<noteq> s) ?P) =
        card {q \<in> seat_number ` set ?P. q < seat_number s}"
    using partition_of_strict [OF wf] sP by (rule length_takeWhile_neq)
  then show ?thesis by (simp add: ROW_NUMBER_def gap_def img)
qed

lemma group_members:
  assumes wf: "wf_ledger db"
  shows "filter (\<lambda>(s, g'). row_number s = r \<and> g' = g) (row_seats db) =
         map (\<lambda>s. (s, g)) (members db r g)"
proof -
  let ?F = "unbooked db"
  have "filter (\<lambda>(s, g'). row_number s = r \<and> g' = g) (row_seats db) =
        map (\<lambda>s. (s, seat_number s - ROW_NUMBER ?F s))
          (filter (\<lambda>s. row_number s = r \<and> seat_number s - ROW_NUMBER ?F s = g) ?F)"
    by (simp add: row_seats_def filter_map comp_def)
  also have "filter (\<lambda>s. row_number s = r \<and> seat_number s - ROW_NUMBER ?F s = g) ?F =
             members db r g"
    unfolding members_def using grp_is_gap [OF wf] by (intro filter_cong) auto
  also have "map (\<lambda>s. (s, seat_number s - ROW_NUMBER ?F s)) (members db r g) =
             map (\<lambda>s. (s, g)) (members db r g)"
    using grp_is_gap [OF wf] by (intro map_cong) (auto simp: members_def)
  finally show ?thesis .
qed

lemma insort_key_map:
  "insort_key f (h x) (map h ys) = map h (insort_key (\<lambda>y. f (h y)) x ys)"
  by (induction ys) simp_all

lemma sort_key_map: "sort_key f (map h xs) = map h (sort_key (\<lambda>y. f (h y)) xs)"
  by (induction xs) (simp_all add: insort_key_map)

lemma group_row:
  assumes wf: "wf_ledger db"
  shows "(let ms = filter (\<lambda>(s, g'). row_number s = r \<and> g' = g) (row_seats db)
          in (r, g, map (seat_id \<circ> fst) (sort_key (seat_number \<circ> fst) ms), length ms)) =
         (r, g, map seat_id (run_seats db r g), length (run_seats db r g))"
  by (simp add: group_members [OF wf] sort_key_map comp_def run_seats_def)

lemma group_keys:
  assumes wf: "wf_ledger db"
  shows "set (map (\<lambda>(s, g). (row_number s, g)) (row_seats db)) =
         (\<lambda>s. (row_number s, gap (free_pos db (row_number s)) (seat_number s))) ` set (unbooked db)"
proof -
  have "map (\<lambda>(s, g). (row_number s, g)) (row_seats db) =
        map (\<lambda>s. (row_number s, seat_number s - ROW_NUMBER (unbooked db) s)) (unbooked db)"
    by (simp add: row_seats_def comp_def)
  also have "\<dots> = map (\<lambda>s. (row_number s, gap (free_pos db (row_number s)) (seat_number s)))
                     (unbooked db)"
    using grp_is_gap [OF wf] by (intro map_cong) auto
  finally show ?thesis by simp
qed

lemma consecutive_groups_set:
  assumes wf: "wf_ledger db"
  shows "x \<in> set (consecutive_groups n db) \<longleftrightarrow>
         (\<exists>s\<in>set (unbooked db).
            x = (row_number s, gap (free_pos db (row_number s)) (seat_number s),
                 map seat_id (run_seats db (row_number s)
                                (gap (free_pos db (row_number s)) (seat_number s))),
                 length (run_seats db (row_number s)
                                (gap (free_pos db (row_number s)) (seat_number s)))) \<and>
            n \<le> int (length (run_seats db (row_number s)
                                (gap (free_pos db (row_number s)) (seat_number s)))))"
proof -
  let ?k = "\<lambda>s. (row_number s, gap (free_pos db (row_number s)) (seat_number s))"
  let ?row = "\<lambda>(r, g). (r, g, map seat_id (run_seats db r g), length (run_seats db r g))"
  have agg: "(\<lambda>(r, g).
                (r, g,
                 map (seat_id \<circ> fst) (sort_key (seat_number \<circ> fst)
                   (filter (\<lambda>(s, g'). row_number s = r \<and> g' = g) (row_seats db))),
                 length (filter (\<lambda>(s, g'). row_number s = r \<and> g' = g) (row_seats db)))) = ?row"
    using group_row [OF wf] by (intro ext) (simp add: split_def Let_def)
  have "set (consecutive_groups n db) =
        {y \<in> ?row ` set (map (\<lambda>(s, g). (row_number s, g)) (row_seats db)).
           case y of (r, g, ids, c) \<Rightarrow> n \<le> int c}"
    unfolding consecutive_groups_def Let_def agg by simp
  also have "\<dots> = {y \<in> ?row ` ?k ` set (unbooked db). case y of (r, g, ids, c) \<Rightarrow> n \<le> int c}"
    by (simp only: group_keys [OF wf])
  finally show ?thesis by (auto simp: image_iff)
qed

lemma run_seats_props:
  assumes wf: "wf_ledger db"
  shows "set (run_seats db r g) =
           {s \<in> set (unbooked db). row_number s = r \<and> gap (free_pos db r) (seat_number s) = g}"
    and "sorted (map seat_number (run_seats db r g))"
    and "distinct (map seat_number (run_seats db r g))"
proof -
  show "set (run_seats db r g) =
           {s \<in> set (unbooked db). row_number s = r \<and> gap (free_pos db r) (seat_number s) = g}"
    by (auto simp: run_seats_def members_def)
  show "sorted (map seat_number (run_seats db r g))"
    by (simp add: run_seats_def)
  have "distinct (map seat_number (filter (\<lambda>s. gap (free_pos db r) (seat_number s) = g)
          (filter (\<lambda>t. row_number t = r) (unbooked db))))"
    using distinct_seat_number_in_row [OF wf, of r] by (rule distinct_map_filter)
  then have "distinct (map seat_number (members db r g))"
    by (simp add: members_def conj_commute)
  then show "distinct (map seat_number (run_seats db r g))"
    by (simp add: run_seats_def distinct_map)
qed

lemma group_positions:
  "seat_number ` set (run_seats db r g) = {p \<in> free_pos db r. gap (free_pos db r) p = g}"
  by (auto simp: run_seats_def members_def free_pos_image)

lemma positions_eq_upto:
  assumes "sorted (map f xs)" and "distinct (map f xs)" and "f ` set xs = {a..b}"
  shows "map f xs = [a..b]"
  using assms by (intro sorted_distinct_set_unique) simp_all

lemma group_is_maximal_run:
  assumes wf: "wf_ledger db" and s: "s \<in> set (unbooked db)"
  defines "r \<equiv> row_number s"
  defines "g \<equiv> gap (free_pos db r) (seat_number s)"
  shows "\<exists>a b. maximal_run db r a b \<and> map seat_number (run_seats db r g) = [a..b]"
proof -
  have p0: "seat_number s \<in> free_pos db r"
    using s by (auto simp: free_pos_image r_def)
  from group_is_run [OF finite_free_pos p0]
  obtain a b where M: "{p \<in> free_pos db r. gap (free_pos db r) p = g} = {a..b}"
    and ab: "a \<le> seat_number s" "seat_number s \<le> b"
    and lo: "a - 1 \<notin> free_pos db r" and hi: "b + 1 \<notin> free_pos db r"
    unfolding g_def by blast
  have "\<forall>p\<in>{a..b}. free_at db r p"
    using M by (auto simp: free_pos_def)
  with ab lo hi have "maximal_run db r a b"
    by (simp add: maximal_run_def free_pos_def)
  moreover have "map seat_number (run_seats db r g) = [a..b]"
    using run_seats_props(2,3) [OF wf] group_positions [of db r g] M
    by (intro positions_eq_upto) simp_all
  ultimately show ?thesis by blast
qed

lemma maximal_run_is_group:
  assumes wf: "wf_ledger db" and run: "maximal_run db r a b"
  shows "\<exists>s\<in>set (unbooked db). row_number s = r \<and> seat_number s = a \<and>
           map seat_number (run_seats db r (gap (free_pos db r) a)) = [a..b]"
proof -
  from run have ab: "a \<le> b" and sub: "{a..b} \<subseteq> free_pos db r"
    and lo: "a - 1 \<notin> free_pos db r" and hi: "b + 1 \<notin> free_pos db r"
    by (auto simp: maximal_run_def free_pos_def)
  from ab sub have "a \<in> free_pos db r" by auto
  then obtain s where s: "s \<in> set (unbooked db)" "row_number s = r" "seat_number s = a"
    by (auto simp: free_pos_image)
  have "{p \<in> free_pos db r. gap (free_pos db r) p = gap (free_pos db r) a} = {a..b}"
    using finite_free_pos ab sub lo hi by (rule run_is_group)
  then have "map seat_number (run_seats db r (gap (free_pos db r) a)) = [a..b]"
    using run_seats_props(2,3) [OF wf] group_positions [of db r "gap (free_pos db r) a"]
    by (intro positions_eq_upto) simp_all
  with s show ?thesis by blast
qed

subsection \<open>The first query picks a run of the lowest row\<close>

lemma group_gives_run:
  assumes wf: "wf_ledger db" and x: "x \<in> set (consecutive_groups n db)"
  shows "\<exists>a b ss. qualifying_run n db (fst x) a b \<and> fst (snd (snd x)) = map seat_id ss \<and>
           map seat_number ss = [a..b] \<and>
           list_all (\<lambda>s. s \<in> set db \<and> \<not> is_booked s \<and> row_number s = fst x) ss"
proof -
  from x obtain s where s: "s \<in> set (unbooked db)"
    and xeq: "x = (row_number s, gap (free_pos db (row_number s)) (seat_number s),
                 map seat_id (run_seats db (row_number s)
                                (gap (free_pos db (row_number s)) (seat_number s))),
                 length (run_seats db (row_number s)
                                (gap (free_pos db (row_number s)) (seat_number s))))"
    and len: "n \<le> int (length (run_seats db (row_number s)
                                (gap (free_pos db (row_number s)) (seat_number s))))"
    unfolding consecutive_groups_set [OF wf] by blast
  let ?r = "row_number s"
  let ?ss = "run_seats db ?r (gap (free_pos db ?r) (seat_number s))"
  from group_is_maximal_run [OF wf s]
  obtain a b where run: "maximal_run db ?r a b" and pos: "map seat_number ?ss = [a..b]"
    by blast
  have "length ?ss = length [a..b]" using pos by (metis length_map)
  moreover have "a \<le> b" using run by (simp add: maximal_run_def)
  ultimately have "n \<le> b - a + 1" using len by simp
  with run have "qualifying_run n db ?r a b" by (simp add: qualifying_run_def)
  moreover have "list_all (\<lambda>t. t \<in> set db \<and> \<not> is_booked t \<and> row_number t = ?r) ?ss"
    using run_seats_props(1) [OF wf, of ?r] by (auto simp: list_all_iff unbooked_def)
  ultimately show ?thesis using pos xeq by auto
qed

lemma run_gives_group:
  assumes wf: "wf_ledger db" and run: "qualifying_run n db r a b"
  shows "\<exists>x\<in>set (consecutive_groups n db). fst x = r"
proof -
  from run have mr: "maximal_run db r a b" and len: "n \<le> b - a + 1"
    by (simp_all add: qualifying_run_def)
  from maximal_run_is_group [OF wf mr]
  obtain s where s: "s \<in> set (unbooked db)" "row_number s = r" "seat_number s = a"
    and pos: "map seat_number (run_seats db r (gap (free_pos db r) a)) = [a..b]"
    by blast
  have "length (run_seats db r (gap (free_pos db r) a)) = length [a..b]"
    using pos by (metis length_map)
  with len have "n \<le> int (length (run_seats db r (gap (free_pos db r) a)))" by simp
  with s have "(r, gap (free_pos db r) a, map seat_id (run_seats db r (gap (free_pos db r) a)),
          length (run_seats db r (gap (free_pos db r) a))) \<in> set (consecutive_groups n db)"
    unfolding consecutive_groups_set [OF wf] by blast
  then show ?thesis by force
qed

lemma sorted_consecutive_groups: "sorted (map fst (consecutive_groups n db))"
  by (simp add: consecutive_groups_def Let_def)

lemma consecutiveSeatsQuery_empty:
  "consecutiveSeatsQuery tie n db = [] \<longleftrightarrow> consecutive_groups n db = []"
  by (simp add: consecutiveSeatsQuery_def Let_def split_def split: list.splits)

lemma consecutiveSeatsQuery_pick:
  assumes "consecutive_groups n db \<noteq> []"
  shows "\<exists>x\<in>set (consecutive_groups n db).
           consecutiveSeatsQuery tie n db = [(fst x, fst (snd (snd x)))] \<and>
           (\<forall>y\<in>set (consecutive_groups n db). fst x \<le> fst y)"
proof -
  from assms obtain g gs where ggs: "consecutive_groups n db = g # gs"
    by (cases "consecutive_groups n db") auto
  let ?firsts = "takeWhile (\<lambda>h. fst h = fst g) (g # gs)"
  let ?x = "?firsts ! (tie mod length ?firsts)"
  have ne: "?firsts \<noteq> []" by simp
  then have "tie mod length ?firsts < length ?firsts" by simp
  then have mem: "?x \<in> set ?firsts" by (rule nth_mem)
  then have in_groups: "?x \<in> set (g # gs)" and row: "fst ?x = fst g"
    by (auto dest: set_takeWhileD)
  have "sorted (map fst (g # gs))"
    using sorted_consecutive_groups [of n db] ggs by simp
  then have least: "\<forall>y\<in>set (g # gs). fst g \<le> fst y" by auto
  have "consecutiveSeatsQuery tie n db = [(fst ?x, fst (snd (snd ?x)))]"
    by (simp add: consecutiveSeatsQuery_def ggs Let_def split_def)
  with in_groups row least show ?thesis unfolding ggs by metis
qed

lemma take_upto:
  assumes "1 \<le> n" and "n \<le> b - a + 1"
  shows "take (nat n) [a..b] = [a..a + n - 1]"
proof -
  have "[a..b] = [a..a + n - 1] @ [a + n - 1 + 1..b]"
    using assms by (intro upto_split2) simp_all
  moreover have "length [a..a + n - 1] = nat n" using assms by simp
  ultimately show ?thesis by simp
qed

lemma consecutive_selected:
  assumes wf: "wf_ledger db" and n: "1 \<le> n" and run: "qualifying_run n db r0 a0 b0"
  shows "\<exists>r a b ss. qualifying_run n db r a b \<and>
           select_seats tie n db = Inr (map seat_id ss) \<and>
           map seat_number ss = [a..a + n - 1] \<and>
           list_all (\<lambda>s. s \<in> set db \<and> \<not> is_booked s \<and> row_number s = r) ss \<and>
           (\<forall>r' a' b'. qualifying_run n db r' a' b' \<longrightarrow> r \<le> r')"
proof -
  from run_gives_group [OF wf run] have ne: "consecutive_groups n db \<noteq> []" by auto
  from consecutiveSeatsQuery_pick [OF ne, of tie]
  obtain x where x: "x \<in> set (consecutive_groups n db)"
    and q: "consecutiveSeatsQuery tie n db = [(fst x, fst (snd (snd x)))]"
    and least: "\<forall>y\<in>set (consecutive_groups n db). fst x \<le> fst y"
    by blast
  from group_gives_run [OF wf x]
  obtain a b ss where qr: "qualifying_run n db (fst x) a b"
    and ids: "fst (snd (snd x)) = map seat_id ss"
    and pos: "map seat_number ss = [a..b]"
    and all: "list_all (\<lambda>s. s \<in> set db \<and> \<not> is_booked s \<and> row_number s = fst x) ss"
    by blast
  let ?ss = "take (nat n) ss"
  have len: "n \<le> b - a + 1" using qr by (simp add: qualifying_run_def)
  have "select_seats tie n db = Inr (map seat_id ?ss)"
    using n by (simp add: select_seats_def q ids slice0_def take_map)
  moreover have "map seat_number ?ss = [a..a + n - 1]"
    using pos take_upto [OF n len] by (metis take_map)
  moreover have "list_all (\<lambda>s. s \<in> set db \<and> \<not> is_booked s \<and> row_number s = fst x) ?ss"
    using all by (auto simp: list_all_iff dest: in_set_takeD)
  moreover have "\<forall>r' a' b'. qualifying_run n db r' a' b' \<longrightarrow> fst x \<le> r'"
    using run_gives_group [OF wf] least by metis
  ultimately show ?thesis using qr by blast
qed

lemma no_run_no_group:
  assumes wf: "wf_ledger db"
  shows "consecutiveSeatsQuery tie n db = [] \<longleftrightarrow> \<not> (\<exists>r a b. qualifying_run n db r a b)"
proof
  assume "consecutiveSeatsQuery tie n db = []"
  then have "consecutive_groups n db = []" by (simp add: consecutiveSeatsQuery_empty)
  then show "\<not> (\<exists>r a b. qualifying_run n db r a b)"
    using run_gives_group [OF wf] by fastforce
next
  assume none: "\<not> (\<exists>r a b. qualifying_run n db r a b)"
  have "consecutive_groups n db = []"
  proof (rule ccontr)
    assume "consecutive_groups n db \<noteq> []"
    then obtain x where "x \<in> set (consecutive_groups n db)"
      by (cases "consecutive_groups n db") auto
    from group_gives_run [OF wf this] none show False by blast
  qed
  then show "consecutiveSeatsQuery tie n db = []" by (simp add: consecutiveSeatsQuery_empty)
qed

text \<open>
  Claim C2. On a table that satisfies the schema, when some row holds a maximal run of at
  least \<open>n\<close> unoccupied seats with consecutive positions, the selection answers the first
  \<open>n\<close> seats, in the order of their positions, of one such run: the selected seats are
  unoccupied seats of one row \<open>r\<close> at the positions \<open>a, a + 1, \<dots>, a + n - 1\<close>, where
  \<open>a\<close> starts a maximal run of row \<open>r\<close> of length at least \<open>n\<close>.
\<close>

theorem consecutive_run_preferred:
  assumes "wf_ledger db" and "1 \<le> n"
    and "maximal_run db r0 a0 b0" and "n \<le> b0 - a0 + 1"
  shows "\<exists>r a b ss. maximal_run db r a b \<and> n \<le> b - a + 1 \<and>
           select_seats tie n db = Inr (map seat_id ss) \<and>
           map seat_number ss = [a..a + n - 1] \<and>
           list_all (\<lambda>s. s \<in> set db \<and> \<not> is_booked s \<and> row_number s = r) ss"
proof -
  have "qualifying_run n db r0 a0 b0" using assms(3,4) by (simp add: qualifying_run_def)
  from consecutive_selected [OF assms(1,2) this, of tie]
  show ?thesis unfolding qualifying_run_def by blast
qed

theorem consecutive_run_preferred_witness:
  "wf_ledger gapped \<and> (1::int) \<le> 3 \<and> maximal_run gapped 2 1 3 \<and> (3::int) \<le> 3 - 1 + 1 \<and>
   select_seats 0 3 gapped = Inr [4, 5, 6] \<and>
   (\<exists>r a b ss. maximal_run gapped r a b \<and> 3 \<le> b - a + 1 \<and>
      select_seats 0 3 gapped = Inr (map seat_id ss) \<and>
      map seat_number ss = [a..a + 3 - 1] \<and>
      list_all (\<lambda>s. s \<in> set gapped \<and> \<not> is_booked s \<and> row_number s = r) ss)"
proof -
  have wf: "wf_ledger gapped"
    by (simp add: ledger_defs gapped_def vacant_def taken_def)
  have n: "(1::int) \<le> 3" and len: "(3::int) \<le> 3 - 1 + 1" by simp_all
  have run: "maximal_run gapped 2 1 3"
    by (simp add: ledger_defs gapped_def vacant_def taken_def)
  have sel: "select_seats 0 3 gapped = Inr [4, 5, 6]"
    by (simp add: eval_defs gapped_def Let_def)
  from consecutive_run_preferred [OF wf n run len, of 0] wf run sel show ?thesis by simp
qed

text \<open>
  Claim C5. When two distinct rows \<open>r1 < r2\<close> each hold a run of at least \<open>n\<close> unoccupied
  consecutive seats, the selection takes its seats from a run of one row \<open>r\<close>, the same
  row for every order in which the database lists the groups: \<open>r\<close> is never the higher row
  \<open>r2\<close>, it is the lowest-numbered of all rows that hold such a run, and so it is the lower
  row \<open>r1\<close> unless a still lower row holds such a run too.
\<close>

theorem lowest_row_chosen:
  assumes "wf_ledger db" and "1 \<le> n"
    and "maximal_run db r1 a1 b1" and "n \<le> b1 - a1 + 1"
    and "maximal_run db r2 a2 b2" and "n \<le> b2 - a2 + 1"
    and "r1 < r2"
  shows "\<exists>r. r \<le> r1 \<and> r \<noteq> r2 \<and>
           (\<forall>r' a' b'. maximal_run db r' a' b' \<and> n \<le> b' - a' + 1 \<longrightarrow> r \<le> r') \<and>
           ((\<forall>r' a' b'. maximal_run db r' a' b' \<and> n \<le> b' - a' + 1 \<longrightarrow> r1 \<le> r') \<longrightarrow> r = r1) \<and>
           (\<forall>tie. \<exists>a b ss. maximal_run db r a b \<and> n \<le> b - a + 1 \<and>
              select_seats tie n db = Inr (map seat_id ss) \<and>
              map seat_number ss = [a..a + n - 1] \<and>
              list_all (\<lambda>s. s \<in> set db \<and> \<not> is_booked s \<and> row_number s = r) ss)"
proof -
  have q1: "qualifying_run n db r1 a1 b1" using assms(3,4) by (simp add: qualifying_run_def)
  from consecutive_selected [OF assms(1,2) q1, of 0]
  obtain r a b ss where r: "qualifying_run n db r a b"
    and least: "\<forall>r' a' b'. qualifying_run n db r' a' b' \<longrightarrow> r \<le> r'"
    by blast
  have "\<exists>a b ss. maximal_run db r a b \<and> n \<le> b - a + 1 \<and>
              select_seats tie n db = Inr (map seat_id ss) \<and>
              map seat_number ss = [a..a + n - 1] \<and>
              list_all (\<lambda>s. s \<in> set db \<and> \<not> is_booked s \<and> row_number s = r) ss" for tie
  proof -
    from consecutive_selected [OF assms(1,2) q1, of tie]
    obtain r' a' b' ss' where r': "qualifying_run n db r' a' b'"
      and sel: "select_seats tie n db = Inr (map seat_id ss')"
      and pos: "map seat_number ss' = [a'..a' + n - 1]"
      and all: "list_all (\<lambda>s. s \<in> set db \<and> \<not> is_booked s \<and> row_number s = r') ss'"
      and least': "\<forall>r'' a'' b''. qualifying_run n db r'' a'' b'' \<longrightarrow> r' \<le> r''"
      by blast
    from least r' have "r \<le> r'" by blast
    moreover from least' r have "r' \<le> r" by blast
    ultimately have "r' = r" by simp
    with r' sel pos all show ?thesis unfolding qualifying_run_def by blast
  qed
  moreover from least q1 have le: "r \<le> r1" by blast
  moreover have "\<forall>r' a' b'. maximal_run db r' a' b' \<and> n \<le> b' - a' + 1 \<longrightarrow> r \<le> r'"
    using least unfolding qualifying_run_def by blast
  moreover have "(\<forall>r' a' b'. maximal_run db r' a' b' \<and> n \<le> b' - a' + 1 \<longrightarrow> r1 \<le> r') \<longrightarrow> r = r1"
  proof
    assume "\<forall>r' a' b'. maximal_run db r' a' b' \<and> n \<le> b' - a' + 1 \<longrightarrow> r1 \<le> r'"
    with r have "r1 \<le> r" unfolding qualifying_run_def by blast
    with le show "r = r1" by simp
  qed
  ultimately show ?thesis using assms(7) by (intro exI [of _ r]) auto
qed

theorem lowest_row_chosen_witness:
  "wf_ledger gapped \<and> (1::int) \<le> 3 \<and>
   maximal_run gapped 1 4 6 \<and> (3::int) \<le> 6 - 4 + 1 \<and>
   maximal_run gapped 2 1 3 \<and> (3::int) \<le> 3 - 1 + 1 \<and> (1::int) < 2 \<and>
   select_seats 0 3 gapped = Inr [4, 5, 6] \<and>
   (\<exists>r. r \<le> 1 \<and> r \<noteq> 2 \<and>
      (\<forall>tie. \<exists>a b ss. maximal_run gapped r a b \<and> 3 \<le> b - a + 1 \<and>
         select_seats tie 3 gapped = Inr (map seat_id ss) \<and>
         map seat_number ss = [a..a + 3 - 1] \<and>
         list_all (\<lambda>s. s \<in> set gapped \<and> \<not> is_booked s \<and> row_number s = r) ss))"
proof -
  have wf: "wf_ledger gapped"
    by (simp add: ledger_defs gapped_def vacant_def taken_def)
  have n: "(1::int) \<le> 3" and l1: "(3::int) \<le> 6 - 4 + 1" and l2: "(3::int) \<le> 3 - 1 + 1"
    and lt: "(1::int) < 2" by simp_all
  have run1: "maximal_run gapped 1 4 6"
    by (simp add: ledger_defs gapped_def vacant_def taken_def)
  have run2: "maximal_run gapped 2 1 3"
    by (simp add: ledger_defs gapped_def vacant_def taken_def)
  have sel: "select_seats 0 3 gapped = Inr [4, 5, 6]"
    by (simp add: eval_defs gapped_def Let_def)
  from lowest_row_chosen [OF wf n run1 l1 run2 l2 lt]
  have "\<exists>r. r \<le> 1 \<and> r \<noteq> 2 \<and>
      (\<forall>tie. \<exists>a b ss. maximal_run gapped r a b \<and> 3 \<le> b - a + 1 \<and>
         select_seats tie 3 gapped = Inr (map seat_id ss) \<and>
         map seat_number ss = [a..a + 3 - 1] \<and>
         list_all (\<lambda>s. s \<in> set gapped \<and> \<not> is_booked s \<and> row_number s = r) ss)"
    by blast
  with wf run1 run2 sel show ?thesis by simp
qed

section \<open>The row with the most available seats, and the nearby rows\<close>

lemma take_1: "take 1 xs = (case xs of [] \<Rightarrow> [] | x # _ \<Rightarrow> [x])"
  by (cases xs) simp_all

lemma rowsWithMaxSeatsQuery_alt:
  "rowsWithMaxSeatsQuery db =
     take 1 (sort_key (\<lambda>(r, ids, c). (- int c, r))
       (map (row_group db) (remdups (map row_number (unbooked db)))))"
proof -
  have "row_group db =
        (\<lambda>r. (r, map seat_id (sort_key seat_number (filter (\<lambda>s. row_number s = r) (unbooked db))),
              length (filter (\<lambda>s. row_number s = r) (unbooked db))))"
    by (intro ext) (simp add: row_group_def in_row_def count_free_def)
  then show ?thesis by (simp add: rowsWithMaxSeatsQuery_def Let_def)
qed

lemma count_free_pos: "s \<in> set (unbooked db) \<Longrightarrow> 0 < count_free db (row_number s)"
  by (auto simp: count_free_def in_row_def filter_empty_conv)

lemma rowsWithMaxSeatsQuery_empty:
  "rowsWithMaxSeatsQuery db = [] \<longleftrightarrow> unbooked db = []"
proof -
  let ?agg = "map (row_group db) (remdups (map row_number (unbooked db)))"
  have "rowsWithMaxSeatsQuery db = [] \<longleftrightarrow> sort_key (\<lambda>(r, ids, c). (- int c, r)) ?agg = []"
    unfolding rowsWithMaxSeatsQuery_alt by (simp add: take_1 split: list.splits)
  also have "\<dots> \<longleftrightarrow> length (sort_key (\<lambda>(r, ids, c). (- int c, r)) ?agg) = 0"
    by (simp only: length_0_conv)
  also have "\<dots> \<longleftrightarrow> unbooked db = []"
    by (simp add: remdups_eq_nil_iff)
  finally show ?thesis .
qed

lemma rowsWithMaxSeatsQuery_head:
  assumes "unbooked db \<noteq> []"
  shows "\<exists>r. rowsWithMaxSeatsQuery db = [row_group db r] \<and> best_row db r"
proof -
  let ?k = "\<lambda>(r, ids, c). (- int c, r) :: int \<times> int"
  let ?agg = "map (row_group db) (remdups (map row_number (unbooked db)))"
  have "length (sort_key ?k ?agg) \<noteq> 0"
    using assms by (simp add: remdups_eq_nil_iff)
  then have ne: "sort_key ?k ?agg \<noteq> []"
    by (simp only: length_0_conv not_False_eq_True)
  then obtain x xs where xxs: "sort_key ?k ?agg = x # xs"
    by (cases "sort_key ?k ?agg") auto
  have "x \<in> set (sort_key ?k ?agg)" using xxs by simp
  then obtain r where r: "r \<in> row_number ` set (unbooked db)" and x: "x = row_group db r"
    by auto
  have "sorted (map ?k (sort_key ?k ?agg))" by (rule sorted_sort_key)
  then have least: "\<forall>y\<in>set (sort_key ?k ?agg). ?k x \<le> ?k y"
    unfolding xxs by auto
  have best: "best_row db r"
    unfolding best_row_def
  proof (intro conjI ballI)
    show "0 < count_free db r" using r count_free_pos by auto
  next
    fix s assume s: "s \<in> set (unbooked db)"
    then have "row_group db (row_number s) \<in> set (sort_key ?k ?agg)" by simp
    with least have "?k x \<le> ?k (row_group db (row_number s))" by blast
    then have le: "(- int (count_free db r), r) \<le>
               (- int (count_free db (row_number s)), row_number s)"
      by (simp add: x row_group_def)
    from le show "count_free db (row_number s) \<le> count_free db r"
      by (auto simp: less_eq_prod_def)
    from le show "count_free db (row_number s) = count_free db r \<longrightarrow> r \<le> row_number s"
      by (auto simp: less_eq_prod_def)
  qed
  have "rowsWithMaxSeatsQuery db = [x]"
    unfolding rowsWithMaxSeatsQuery_alt xxs by simp
  with x best show ?thesis by blast
qed

lemma best_row_unique:
  assumes "best_row db r" and "best_row db r'"
  shows "r = r'"
proof -
  from assms have "0 < count_free db r" "0 < count_free db r'"
    by (simp_all add: best_row_def)
  then obtain s s' where s: "s \<in> set (unbooked db)" "row_number s = r"
    and s': "s' \<in> set (unbooked db)" "row_number s' = r'"
    by (auto simp: count_free_def in_row_def filter_empty_conv)
  from assms(1) s' have 1: "count_free db r' \<le> count_free db r"
    and 2: "count_free db r' = count_free db r \<longrightarrow> r \<le> r'"
    unfolding best_row_def by blast+
  from assms(2) s have 3: "count_free db r \<le> count_free db r'"
    and 4: "count_free db r = count_free db r' \<longrightarrow> r' \<le> r"
    unfolding best_row_def by blast+
  from 1 2 3 4 show ?thesis by simp
qed

lemma rowsWithMaxSeatsQuery_best:
  assumes "best_row db r"
  shows "rowsWithMaxSeatsQuery db = [row_group db r]"
proof -
  from assms have "0 < count_free db r" by (simp add: best_row_def)
  then have "unbooked db \<noteq> []" by (auto simp: count_free_def in_row_def)
  from rowsWithMaxSeatsQuery_head [OF this]
  obtain r' where "rowsWithMaxSeatsQuery db = [row_group db r']" and "best_row db r'" by blast
  with assms best_row_unique show ?thesis by metis
qed

lemma wf_distinct_ids: "wf_ledger db \<Longrightarrow> distinct (map seat_id db)"
  by (simp add: wf_ledger_def)

lemma distinct_ids_unbooked: "wf_ledger db \<Longrightarrow> distinct (map seat_id (unbooked db))"
  unfolding unbooked_def by (intro distinct_map_filter wf_distinct_ids)

lemma nearby_filter:
  assumes wf: "wf_ledger db"
  shows "filter (\<lambda>s. \<not> is_booked s \<and>
                    seat_id s \<notin> set (map seat_id (sort_key seat_number (in_row db r)))) db =
         other_rows db r"
proof -
  have "\<And>s. s \<in> set db \<Longrightarrow> \<not> is_booked s \<Longrightarrow>
          seat_id s \<in> seat_id ` set (in_row db r) \<longleftrightarrow> row_number s = r"
  proof
    fix s assume s: "s \<in> set db" "\<not> is_booked s" and "seat_id s \<in> seat_id ` set (in_row db r)"
    then obtain t where t: "t \<in> set (in_row db r)" and eq: "seat_id s = seat_id t" by auto
    from t have "t \<in> set db" by (simp add: in_row_def unbooked_def)
    with seat_id_eq_iff [OF wf_distinct_ids [OF wf] this s(1)] eq have "s = t" by simp
    with t show "row_number s = r" by (simp add: in_row_def)
  next
    fix s assume "s \<in> set db" "\<not> is_booked s" "row_number s = r"
    then have "s \<in> set (in_row db r)" by (simp add: in_row_def unbooked_def)
    then show "seat_id s \<in> seat_id ` set (in_row db r)" by (rule imageI)
  qed
  then have "filter (\<lambda>s. \<not> is_booked s \<and>
                    seat_id s \<notin> set (map seat_id (sort_key seat_number (in_row db r)))) db =
             filter (\<lambda>s. \<not> is_booked s \<and> row_number s \<noteq> r) db"
    by (intro filter_cong) auto
  then show ?thesis by (simp add: other_rows_def unbooked_def conj_commute)
qed

lemma length_other_rows: "length (other_rows db r) + count_free db r = length (unbooked db)"
  unfolding other_rows_def count_free_def in_row_def
  using sum_length_filter_compl [of "\<lambda>s. row_number s = r" "unbooked db"] by simp

lemma nearbySeatsQuery_best:
  assumes wf: "wf_ledger db"
  shows "nearbySeatsQuery (map seat_id (sort_key seat_number (in_row db r))) r lim db =
         map seat_id (take (nat lim) (sort_key (nearby_key r) (other_rows db r)))"
proof -
  have "nearby_key r = (\<lambda>s. (\<bar>row_number s - r\<bar>, row_number s, seat_number s))"
    by (intro ext) (simp add: nearby_key_def)
  then show ?thesis
    unfolding nearbySeatsQuery_def nearby_filter [OF wf] by simp
qed

lemma select_seats_best_row:
  assumes wf: "wf_ledger db" and n: "1 \<le> n"
    and none: "consecutiveSeatsQuery tie n db = []" and best: "best_row db r"
  shows "select_seats tie n db =
          (if n \<le> int (count_free db r)
           then Inr (take (nat n) (map seat_id (sort_key seat_number (in_row db r))))
           else if n \<le> int (length (unbooked db))
           then Inr (map seat_id (sort_key seat_number (in_row db r)) @
                     map seat_id (take (nat (n - int (count_free db r)))
                                    (sort_key (nearby_key r) (other_rows db r))))
           else Inl InsufficientCapacity)"
proof -
  let ?c = "count_free db r"
  let ?ids = "map seat_id (sort_key seat_number (in_row db r))"
  have pos: "0 < ?c" using best by (simp add: best_row_def)
  have len_ids: "length ?ids = ?c" by (simp add: count_free_def)
  show ?thesis
  proof (cases "n \<le> int ?c")
    case True
    then have "min (int ?c) n = n" by simp
    with True n pos show ?thesis
      by (simp add: select_seats_def none rowsWithMaxSeatsQuery_best [OF best] row_group_def
          slice0_def Let_def)
  next
    case False
    then have m: "min (int ?c) n = int ?c" by simp
    have sl: "slice0 ?ids (int ?c) = ?ids" using len_ids by (simp add: slice0_def)
    have near: "int (length (nearbySeatsQuery ?ids r (n - int ?c) db)) = n - int ?c
                \<longleftrightarrow> n \<le> int (length (unbooked db))"
      using False length_other_rows [of db r]
      by (auto simp: nearbySeatsQuery_best [OF wf] min_def)
    show ?thesis
    proof (cases "n \<le> int (length (unbooked db))")
      case True
      with False near pos show ?thesis
        by (simp add: select_seats_def none rowsWithMaxSeatsQuery_best [OF best] row_group_def
            Let_def m sl nearbySeatsQuery_best [OF wf])
    next
      case nf: False
      with False near pos show ?thesis
        by (simp add: select_seats_def none rowsWithMaxSeatsQuery_best [OF best] row_group_def
            Let_def m sl)
    qed
  qed
qed

lemma select_seats_none_free:
  assumes "unbooked db = []" and "1 \<le> n"
  shows "select_seats tie n db = Inl InsufficientCapacity"
proof -
  have "row_seats db = []" using assms(1) by (simp add: row_seats_def)
  then have "consecutiveSeatsQuery tie n db = []"
    by (simp add: consecutiveSeatsQuery_def consecutive_groups_def)
  moreover have "rowsWithMaxSeatsQuery db = []"
    using assms(1) by (simp add: rowsWithMaxSeatsQuery_empty)
  ultimately show ?thesis
    using assms
    by (simp add: select_seats_def anyAvailableSeats_def anyAvailableSeatsQuery_def)
qed

lemma short_rows_no_group:
  assumes wf: "wf_ledger db" and best: "best_row db r" and short: "int (count_free db r) < n"
  shows "consecutiveSeatsQuery tie n db = []"
proof -
  have "consecutive_groups n db = []"
  proof (rule ccontr)
    assume "consecutive_groups n db \<noteq> []"
    then obtain x where "x \<in> set (consecutive_groups n db)"
      by (cases "consecutive_groups n db") auto
    then obtain s where s: "s \<in> set (unbooked db)"
      and len: "n \<le> int (length (run_seats db (row_number s)
                  (gap (free_pos db (row_number s)) (seat_number s))))"
      unfolding consecutive_groups_set [OF wf] by blast
    let ?g = "gap (free_pos db (row_number s)) (seat_number s)"
    have "members db (row_number s) ?g =
          filter (\<lambda>t. gap (free_pos db (row_number s)) (seat_number t) = ?g)
            (in_row db (row_number s))"
      by (simp add: members_def in_row_def conj_commute)
    then have "length (run_seats db (row_number s) ?g) \<le> count_free db (row_number s)"
      by (simp add: run_seats_def count_free_def)
    moreover have "count_free db (row_number s) \<le> count_free db r"
      using best s unfolding best_row_def by blast
    ultimately show False using len short by linarith
  qed
  then show ?thesis by (simp add: consecutiveSeatsQuery_empty)
qed

text \<open>
  Claim C6. When the row \<open>r\<close> with the most unoccupied seats (the lowest-numbered such
  row) has fewer than \<open>n\<close> of them, and the table has at least \<open>n\<close> unoccupied seats, the
  selection is all unoccupied seats of row \<open>r\<close> in the order of their positions, followed by
  the first missing ones of the unoccupied seats of the other rows, ordered by the distance
  of their row from \<open>r\<close>, then by row number (of two rows at the same distance the
  lower-numbered one comes first), then by position.
\<close>

theorem nearby_spillover:
  assumes "wf_ledger db" and "1 \<le> n" and "best_row db r"
    and "int (count_free db r) < n" and "n \<le> int (length (unbooked db))"
  shows "select_seats tie n db =
           Inr (map seat_id (sort_key seat_number (in_row db r)) @
                map seat_id (take (nat (n - int (count_free db r)))
                  (sort_key (\<lambda>s. (\<bar>row_number s - r\<bar>, row_number s, seat_number s))
                     (other_rows db r))))"
proof -
  have none: "consecutiveSeatsQuery tie n db = []"
    using assms(1,3,4) by (rule short_rows_no_group)
  have "nearby_key r = (\<lambda>s. (\<bar>row_number s - r\<bar>, row_number s, seat_number s))"
    by (intro ext) (simp add: nearby_key_def)
  with select_seats_best_row [OF assms(1,2) none assms(3)] assms(4,5)
  show ?thesis by simp
qed

theorem nearby_spillover_witness:
  "wf_ledger spill \<and> (1::int) \<le> 4 \<and> best_row spill 2 \<and> int (count_free spill 2) < 4 \<and>
   4 \<le> int (length (unbooked spill)) \<and>
   select_seats 0 4 spill = Inr [3, 5, 1, 6]"
proof -
  have wf: "wf_ledger spill"
    by (simp add: wf_ledger_def spill_def vacant_def taken_def)
  have n: "(1::int) \<le> 4" by simp
  have best: "best_row spill 2"
    by (simp add: best_row_def count_free_def in_row_def unbooked_def spill_def
        vacant_def taken_def)
  have short: "int (count_free spill 2) < 4"
    by (simp add: count_free_def in_row_def unbooked_def spill_def vacant_def taken_def)
  have enough: "4 \<le> int (length (unbooked spill))"
    by (simp add: unbooked_def spill_def vacant_def taken_def)
  from nearby_spillover [OF wf n best short enough, of 0]
  have "select_seats 0 4 spill = Inr [3, 5, 1, 6]"
    by (simp add: count_free_def in_row_def other_rows_def unbooked_def spill_def
        vacant_def taken_def)
  with wf best short enough show ?thesis by simp
qed

section \<open>Any available seats\<close>




text \<open>
  What the fallback would answer on any table: the first \<open>n\<close> unoccupied seats in the
  order of (row, position) when that many are unoccupied, the refusal otherwise.
\<close>

lemma anyAvailableSeats_answer:
  assumes "0 \<le> n"
  shows "anyAvailableSeats n db =
          (if n \<le> int (length (unbooked db))
           then Inr (map seat_id (take (nat n)
                  (sort_key (\<lambda>s. (row_number s, seat_number s)) (unbooked db))))
           else Inl InsufficientCapacity)"
  using assms by (auto simp: anyAvailableSeats_def anyAvailableSeatsQuery_def Let_def min_def)




section \<open>What every selection and every booking returns\<close>

lemma distinct_ids_sublist:
  assumes "distinct (map seat_id xs)" and "distinct ss" and "set ss \<subseteq> set xs"
  shows "distinct (map seat_id ss)"
proof -
  from assms(1) have "inj_on seat_id (set xs)" by (simp add: distinct_map)
  with assms(3) have "inj_on seat_id (set ss)" by (rule inj_on_subset [rotated])
  with assms(2) show ?thesis by (simp add: distinct_map)
qed

lemma wf_distinct: "wf_ledger db \<Longrightarrow> distinct db"
  by (simp add: wf_ledger_def distinct_map)

lemma distinct_unbooked: "wf_ledger db \<Longrightarrow> distinct (unbooked db)"
  by (simp add: unbooked_def wf_distinct)

lemma select_seats_cases:
  assumes wf: "wf_ledger db" and n: "1 \<le> n"
  shows "(select_seats tie n db = Inl InsufficientCapacity \<and> int (length (unbooked db)) < n) \<or>
         (\<exists>ss. select_seats tie n db = Inr (map seat_id ss) \<and> length ss = nat n \<and>
               distinct (map seat_id ss) \<and> set ss \<subseteq> set (unbooked db) \<and>
               n \<le> int (length (unbooked db)))"
proof (cases "consecutive_groups n db = []")
  case False
  from consecutiveSeatsQuery_pick [OF False, of tie]
  obtain x where x: "x \<in> set (consecutive_groups n db)"
    and q: "consecutiveSeatsQuery tie n db = [(fst x, fst (snd (snd x)))]"
    by blast
  from x obtain r g where ids: "fst (snd (snd x)) = map seat_id (run_seats db r g)"
    and len: "n \<le> int (length (run_seats db r g))"
    unfolding consecutive_groups_set [OF wf] by auto
  let ?ss = "take (nat n) (run_seats db r g)"
  have sub: "set (run_seats db r g) \<subseteq> set (unbooked db)"
    by (auto simp: run_seats_def members_def)
  have d: "distinct (run_seats db r g)"
    using distinct_unbooked [OF wf] by (simp add: run_seats_def members_def)
  have "length (run_seats db r g) \<le> length (unbooked db)"
    by (simp add: run_seats_def members_def)
  with len have big: "n \<le> int (length (unbooked db))" by linarith
  have "select_seats tie n db = Inr (map seat_id ?ss)"
    using n by (simp add: select_seats_def q ids slice0_def take_map)
  moreover have "length ?ss = nat n" using len n by simp
  moreover have "distinct (map seat_id ?ss)"
    using distinct_ids_unbooked [OF wf]
  proof (rule distinct_ids_sublist)
    show "distinct ?ss" using d by simp
    show "set ?ss \<subseteq> set (unbooked db)" using sub by (auto dest: in_set_takeD)
  qed
  moreover have "set ?ss \<subseteq> set (unbooked db)" using sub by (auto dest: in_set_takeD)
  ultimately show ?thesis using big by blast
next
  case True
  then have none: "consecutiveSeatsQuery tie n db = []"
    by (simp add: consecutiveSeatsQuery_empty)
  show ?thesis
  proof (cases "unbooked db = []")
    case True
    with n select_seats_none_free [OF True n, of tie] show ?thesis by simp
  next
    case False
    from rowsWithMaxSeatsQuery_head [OF False] obtain r where best: "best_row db r" by blast
    note sel = select_seats_best_row [OF wf n none best]
    let ?row = "sort_key seat_number (in_row db r)"
    let ?near = "take (nat (n - int (count_free db r))) (sort_key (nearby_key r) (other_rows db r))"
    have row_sub: "set ?row \<subseteq> set (unbooked db)" by (auto simp: in_row_def)
    have near_sub: "set ?near \<subseteq> set (unbooked db)"
      by (auto simp: other_rows_def dest!: in_set_takeD)
    have row_d: "distinct ?row" using distinct_unbooked [OF wf] by (simp add: in_row_def)
    have near_d: "distinct ?near" using distinct_unbooked [OF wf] by (simp add: other_rows_def)
    have disj: "set ?row \<inter> set ?near = {}"
      by (auto simp: in_row_def other_rows_def dest!: in_set_takeD)
    have c_le: "count_free db r \<le> length (unbooked db)"
      by (simp add: count_free_def in_row_def)
    consider (a) "n \<le> int (count_free db r)"
      | (b) "\<not> n \<le> int (count_free db r)" "n \<le> int (length (unbooked db))"
      | (c) "\<not> n \<le> int (count_free db r)" "\<not> n \<le> int (length (unbooked db))"
      by blast
    then show ?thesis
    proof cases
      case a
      let ?ss = "take (nat n) ?row"
      have "select_seats tie n db = Inr (map seat_id ?ss)" using sel a by (simp add: take_map)
      moreover have "length ?ss = nat n" using a n by (simp add: count_free_def)
      moreover have "distinct (map seat_id ?ss)"
        using distinct_ids_unbooked [OF wf]
      proof (rule distinct_ids_sublist)
        show "distinct ?ss" using row_d by simp
        show "set ?ss \<subseteq> set (unbooked db)"
          using row_sub set_take_subset [of "nat n" ?row] by blast
      qed
      moreover have "set ?ss \<subseteq> set (unbooked db)"
        using row_sub set_take_subset [of "nat n" ?row] by blast
      moreover have "n \<le> int (length (unbooked db))" using a c_le by linarith
      ultimately show ?thesis by blast
    next
      case b
      let ?ss = "?row @ ?near"
      have "select_seats tie n db = Inr (map seat_id ?ss)" using sel b by simp
      moreover have "length ?ss = nat n"
      proof -
        have "nat (n - int (count_free db r)) \<le> length (other_rows db r)"
          using b length_other_rows [of db r] by linarith
        then have "length ?near = nat (n - int (count_free db r))" by simp
        moreover have "length ?row = count_free db r" by (simp add: count_free_def)
        ultimately show ?thesis using b by simp
      qed
      moreover have "distinct (map seat_id ?ss)"
        using distinct_ids_unbooked [OF wf]
      proof (rule distinct_ids_sublist)
        show "distinct ?ss" using row_d near_d disj by simp
        show "set ?ss \<subseteq> set (unbooked db)" using row_sub near_sub by simp
      qed
      moreover have "set ?ss \<subseteq> set (unbooked db)" using row_sub near_sub by simp
      ultimately show ?thesis using b by blast
    next
      case c
      then show ?thesis using sel by simp
    qed
  qed
qed

lemma returning_ids:
  assumes d: "distinct (map seat_id db)" and ds: "distinct sel"
    and sub: "set sel \<subseteq> seat_id ` set db"
  shows "length (updateReturning sel db) = length sel"
    and "distinct (map fst (updateReturning sel db))"
    and "fst ` set (updateReturning sel db) = set sel"
proof -
  let ?ys = "map fst (updateReturning sel db)"
  have ys: "?ys = filter (\<lambda>i. i \<in> set sel) (map seat_id db)"
    by (simp add: updateReturning_def filter_map comp_def)
  show dy: "distinct ?ys" unfolding ys using d by simp
  have sy: "set ?ys = set sel" unfolding ys using sub by auto
  then show "fst ` set (updateReturning sel db) = set sel" by simp
  have "card (set ?ys) = length ?ys" using dy by (rule distinct_card)
  moreover have "card (set sel) = length sel" using ds by (rule distinct_card)
  ultimately show "length (updateReturning sel db) = length sel" using sy by simp
qed

text \<open>
  Claim C4. On a table that satisfies the schema and for a count \<open>n\<close> of at least 1 (so for
  every count from 1 to 7), the selection refuses for lack of seats exactly when fewer than
  \<open>n\<close> seats are unoccupied; when at least \<open>n\<close> are, it answers \<open>n\<close> candidates.
\<close>

theorem insufficient_iff:
  assumes "wf_ledger db" and "1 \<le> n"
  shows "(select_seats tie n db = Inl InsufficientCapacity \<longleftrightarrow> int (length (unbooked db)) < n) \<and>
         (n \<le> int (length (unbooked db)) \<longrightarrow>
            (\<exists>sel. select_seats tie n db = Inr sel \<and> length sel = nat n))"
  using select_seats_cases [OF assms, of tie] by auto

theorem insufficient_iff_witness:
  "wf_ledger gapped \<and> (1::int) \<le> 7 \<and> length (unbooked gapped) = 8 \<and>
   select_seats 0 7 gapped = Inr [1, 2, 4, 5, 6, 7, 8] \<and>
   wf_ledger two_seats \<and> (1::int) \<le> 2 \<and> length (unbooked two_seats) = 1 \<and>
   select_seats 0 2 two_seats = Inl InsufficientCapacity"
proof -
  have wf: "wf_ledger gapped"
    by (simp add: wf_ledger_def gapped_def vacant_def taken_def)
  have wf2: "wf_ledger two_seats"
    by (simp add: wf_ledger_def two_seats_def vacant_def taken_def)
  have n: "(1::int) \<le> 7" and n2: "(1::int) \<le> 2" by simp_all
  have len: "length (unbooked gapped) = 8"
    by (simp add: unbooked_def gapped_def vacant_def taken_def)
  have len2: "length (unbooked two_seats) = 1"
    by (simp add: unbooked_def two_seats_def vacant_def taken_def)
  have sel: "select_seats 0 7 gapped = Inr [1, 2, 4, 5, 6, 7, 8]"
    by (simp add: eval_defs gapped_def Let_def)
  have "select_seats 0 2 two_seats = Inl InsufficientCapacity"
    using insufficient_iff [OF wf2 n2, of 0] len2 by simp
  with insufficient_iff [OF wf n, of 0] wf wf2 len len2 sel show ?thesis by simp
qed

text \<open>
  Claim C10. A booking that succeeds returns exactly \<open>numSeats\<close> seats, their identifiers
  are pairwise distinct, and each of them was unoccupied in the table the selection read,
  whatever the table the re-check read.
\<close>

theorem assigned_seats:
  assumes "wf_ledger snap" and "same_seats snap cur"
    and "book_seats tie numSeats userId now snap chk cur = (Booked assigned, db')"
  shows "length assigned = nat numSeats \<and> 1 \<le> numSeats \<and>
         distinct (map fst assigned) \<and>
         (\<forall>x\<in>set assigned. \<exists>s\<in>set snap. seat_id s = fst x \<and> \<not> is_booked s)"
proof -
  from assms(3) have n: "1 \<le> numSeats"
    by (auto simp: book_seats_def split: if_splits)
  from select_seats_cases [OF assms(1) n, of tie] assms(3) n
  obtain ss where sel: "select_seats tie numSeats snap = Inr (map seat_id ss)"
    and len: "length ss = nat numSeats"
    and d: "distinct (map seat_id ss)" and sub: "set ss \<subseteq> set (unbooked snap)"
    by (auto simp: book_seats_def split: if_splits)
  define sel where "sel = map seat_id ss"
  have ids: "sel = map seat_id ss" by (simp add: sel_def)
  from assms(3) n sel have res: "assigned = updateReturning sel cur"
    by (auto simp: book_seats_def sel_def split: if_splits)
  have "map fst (map (\<lambda>s. (seat_id s, row_number s, seat_number s)) snap) =
        map fst (map (\<lambda>s. (seat_id s, row_number s, seat_number s)) cur)"
    using assms(2) by (simp only: same_seats_def)
  then have same: "map seat_id snap = map seat_id cur" by (simp add: comp_def)
  have dc: "distinct (map seat_id cur)"
    using wf_distinct_ids [OF assms(1)] same by simp
  have "set sel \<subseteq> seat_id ` set snap"
    using sub by (auto simp: ids unbooked_def)
  also have "seat_id ` set snap = seat_id ` set cur"
    using same by (metis set_map)
  finally have subc: "set sel \<subseteq> seat_id ` set cur" .
  have dsel: "distinct sel" using d by (simp add: ids)
  note ret = returning_ids [OF dc dsel subc]
  have "length assigned = nat numSeats" using ret(1) len by (simp add: res ids)
  moreover have "distinct (map fst assigned)" using ret(2) by (simp add: res)
  moreover have "\<forall>x\<in>set assigned. \<exists>s\<in>set snap. seat_id s = fst x \<and> \<not> is_booked s"
  proof
    fix x assume "x \<in> set assigned"
    then have "fst x \<in> set sel" using ret(3) by (auto simp: res)
    then obtain s where "s \<in> set ss" "seat_id s = fst x" by (auto simp: ids)
    with sub show "\<exists>s\<in>set snap. seat_id s = fst x \<and> \<not> is_booked s"
      by (auto simp: unbooked_def)
  qed
  ultimately show ?thesis using n by simp
qed

theorem assigned_seats_witness:
  "wf_ledger raced \<and> same_seats raced layout_2x3 \<and>
   book_seats 0 2 7 50 raced raced layout_2x3 =
     (Booked [(4, 2, 1), (5, 2, 2)],
      [vacant 1 1 1, vacant 2 1 2, vacant 3 1 3,
       taken 4 2 1 7 50, taken 5 2 2 7 50, vacant 6 2 3]) \<and>
   length [(4, 2, 1), (5, 2, 2) :: int \<times> int \<times> int] = nat 2 \<and>
   distinct (map fst [(4, 2, 1), (5, 2, 2) :: int \<times> int \<times> int])"
proof -
  have wf: "wf_ledger raced"
    by (simp add: wf_ledger_def raced_def vacant_def taken_def)
  have same: "same_seats raced layout_2x3"
    by (simp add: same_seats_def layout_2x3_def raced_def vacant_def taken_def)
  have book: "book_seats 0 2 7 50 raced raced layout_2x3 =
     (Booked [(4, 2, 1), (5, 2, 2)],
      [vacant 1 1 1, vacant 2 1 2, vacant 3 1 3,
       taken 4 2 1 7 50, taken 5 2 2 7 50, vacant 6 2 3])"
    by (simp add: eval_defs layout_2x3_def raced_def Let_def)
  from assigned_seats [OF wf same book] wf same book show ?thesis by simp
qed

end
